theory Spec2Isabelle
  imports Main "HOL-Library.Word"
begin

unbundle bit_operations_syntax

section \<open>JavaScript strings and the string primitives the middleware calls\<close>

text \<open>
  A JavaScript string is a sequence of 16-bit UTF-16 code units; a Node \<open>Buffer\<close> is a
  sequence of bytes. String literals of the source are ASCII and are written as HOL
  strings, injected into code-unit sequences by \<open>lit\<close>.
\<close>

type_synonym code_unit = "16 word"
type_synonym jsstring = "code_unit list"
type_synonym byte = "8 word"
type_synonym buffer = "byte list"

definition lit :: "string \<Rightarrow> jsstring" where
  "lit s = map (\<lambda>c. of_nat (of_char c)) s"

text \<open>
  The code units matched by the regular expression class \<open>\s\<close> and stripped by
  \<open>String.prototype.trim\<close>: ECMAScript's WhiteSpace and LineTerminator productions
  (TAB, LF, VT, FF, CR, SP, NBSP, the Unicode space separators, LS, PS and the BOM).
  Both primitives use the same set.
\<close>

definition isWhiteSpace :: "code_unit \<Rightarrow> bool" where
  "isWhiteSpace c \<longleftrightarrow>
     c = 0x09 \<or> c = 0x0A \<or> c = 0x0B \<or> c = 0x0C \<or> c = 0x0D \<or> c = 0x20 \<or>
     c = 0xA0 \<or> c = 0x1680 \<or> (0x2000 \<le> c \<and> c \<le> 0x200A) \<or>
     c = 0x2028 \<or> c = 0x2029 \<or> c = 0x202F \<or> c = 0x205F \<or> c = 0x3000 \<or>
     c = 0xFEFF"

text \<open>\<open>s.trim()\<close>: white space removed from both ends.\<close>

definition trim :: "jsstring \<Rightarrow> jsstring" where
  "trim s = rev (dropWhile isWhiteSpace (rev (dropWhile isWhiteSpace s)))"

text \<open>
  \<open>s.split(/\s+/)\<close>, following the scan of \<open>RegExp.prototype[Symbol.split]\<close>: \<open>cur\<close> is the
  piece collected since the end of the last separator; a greedy match of \<open>\s+\<close> closes the
  piece and skips the whole run; the piece open at the end of the string is always
  emitted, so the empty string splits into one empty piece.
\<close>

function splitLoop :: "jsstring \<Rightarrow> jsstring \<Rightarrow> jsstring list" where
  "splitLoop cur [] = [cur]"
| "splitLoop cur (c # cs) =
     (if isWhiteSpace c then cur # splitLoop [] (dropWhile isWhiteSpace cs)
      else splitLoop (cur @ [c]) cs)"
  by pat_completeness auto
termination
  by (relation "measure (\<lambda>(cur, s). length s)")
     (auto simp: length_dropWhile_le less_Suc_eq_le)

definition split_ws :: "jsstring \<Rightarrow> jsstring list" where
  "split_ws s = splitLoop [] s"

text \<open>
  \<open>s.toLowerCase()\<close>. The mapping is exact on the code units U+0000 to U+00FF (ASCII and
  the Latin-1 supplement, the only code units Node's HTTP parser produces for a header
  value): \<open>A\<close> to \<open>Z\<close> and U+00C0 to U+00DE without the multiplication sign move up by
  32. The Unicode case tables above U+00FF are not reproduced and such code units are
  passed through. Outside \<open>A\<close> to \<open>Z\<close> only U+212A (to \<open>k\<close>) and U+0130 (to \<open>i\<close> and a
  combining dot) lower-case to an ASCII letter, and neither letter occurs in \<open>bearer\<close>, so
  the scheme test of the middleware does not depend on that part.
\<close>

definition lowerUnit :: "code_unit \<Rightarrow> code_unit" where
  "lowerUnit c =
     (if (0x41 \<le> c \<and> c \<le> 0x5A) \<or> (0xC0 \<le> c \<and> c \<le> 0xDE \<and> c \<noteq> 0xD7) then c + 0x20
      else c)"

definition toLowerCase :: "jsstring \<Rightarrow> jsstring" where
  "toLowerCase s = map lowerUnit s"

section \<open>Header parser\<close>

record ParsedAuthHeader =
  scheme :: jsstring
  token :: jsstring

definition parseAuthorizationHeader :: "jsstring \<Rightarrow> ParsedAuthHeader option" where
  "parseAuthorizationHeader authHeader =
     (let trimmed = trim authHeader;
          parts = split_ws trimmed
      in if length parts \<noteq> 2 then None
         else let s = parts ! 0; t = parts ! 1
              in if s = [] \<or> t = [] then None
                 else Some \<lparr>scheme = toLowerCase s, token = trim t\<rparr>)"

section \<open>Constant-time token comparator\<close>

text \<open>
  \<open>Buffer.from(s)\<close> encodes a string as UTF-8: a surrogate pair is one code point of four
  bytes, an unpaired surrogate is written as U+FFFD (\<open>EF BF BD\<close>).
\<close>

definition isHighSurrogate :: "code_unit \<Rightarrow> bool" where
  "isHighSurrogate c \<longleftrightarrow> 0xD800 \<le> c \<and> c \<le> 0xDBFF"

definition isLowSurrogate :: "code_unit \<Rightarrow> bool" where
  "isLowSurrogate c \<longleftrightarrow> 0xDC00 \<le> c \<and> c \<le> 0xDFFF"

definition utf8_encode :: "nat \<Rightarrow> buffer" where
  "utf8_encode cp =
     (if cp < 0x80 then [of_nat cp]
      else if cp < 0x800 then
        [of_nat (0xC0 + cp div 0x40), of_nat (0x80 + cp mod 0x40)]
      else if cp < 0x10000 then
        [of_nat (0xE0 + cp div 0x1000), of_nat (0x80 + cp div 0x40 mod 0x40),
         of_nat (0x80 + cp mod 0x40)]
      else
        [of_nat (0xF0 + cp div 0x40000), of_nat (0x80 + cp div 0x1000 mod 0x40),
         of_nat (0x80 + cp div 0x40 mod 0x40), of_nat (0x80 + cp mod 0x40)])"

definition surrogate_pair :: "code_unit \<Rightarrow> code_unit \<Rightarrow> nat" where
  "surrogate_pair hi lo = 0x10000 + (unat hi - 0xD800) * 0x400 + (unat lo - 0xDC00)"

fun Buffer_from :: "jsstring \<Rightarrow> buffer" where
  "Buffer_from [] = []"
| "Buffer_from [c] =
     (if isHighSurrogate c \<or> isLowSurrogate c then utf8_encode 0xFFFD
      else utf8_encode (unat c))"
| "Buffer_from (c # d # cs) =
     (if isHighSurrogate c \<and> isLowSurrogate d then
        utf8_encode (surrogate_pair c d) @ Buffer_from cs
      else if isHighSurrogate c \<or> isLowSurrogate c then
        utf8_encode 0xFFFD @ Buffer_from (d # cs)
      else utf8_encode (unat c) @ Buffer_from (d # cs))"

text \<open>
  \<open>crypto.timingSafeEqual(a, b)\<close> throws a \<open>RangeError\<close> when the byte lengths differ and
  otherwise compares as OpenSSL's \<open>CRYPTO_memcmp\<close> does: every byte pair is XOR-ed into an
  accumulator, which is tested once, after the last pair.
\<close>

datatype js_error = TypeError | RangeError | OtherError

definition CRYPTO_memcmp :: "buffer \<Rightarrow> buffer \<Rightarrow> byte" where
  "CRYPTO_memcmp a b = fold (\<lambda>(x, y) acc. acc OR (x XOR y)) (zip a b) 0"

text \<open>
  The two primitives the comparator calls are taken as a parameter, each able to throw,
  so that the effect of the \<open>try\<close>/\<open>catch\<close> can be stated for any fault; \<open>node\<close> is
  what they compute on strings.
\<close>

record primitives =
  bufferFrom :: "jsstring \<Rightarrow> js_error + buffer"
  timingSafeEqual :: "buffer \<Rightarrow> buffer \<Rightarrow> js_error + bool"

definition node :: primitives where
  "node = \<lparr>bufferFrom = (\<lambda>s. Inr (Buffer_from s)),
           timingSafeEqual = (\<lambda>a b. if length a \<noteq> length b then Inl RangeError
                                     else Inr (CRYPTO_memcmp a b = 0))\<rparr>"

text \<open>The body of the \<open>try\<close> block: a throw of either primitive leaves it at once.\<close>

definition compareTokens_try :: "primitives \<Rightarrow> jsstring \<Rightarrow> jsstring \<Rightarrow> js_error + bool" where
  "compareTokens_try P providedToken validToken =
     (case bufferFrom P providedToken of
        Inl e \<Rightarrow> Inl e
      | Inr providedBuffer \<Rightarrow>
          (case bufferFrom P validToken of
             Inl e \<Rightarrow> Inl e
           | Inr validBuffer \<Rightarrow>
               if length providedBuffer \<noteq> length validBuffer then Inr False
               else timingSafeEqual P providedBuffer validBuffer))"

text \<open>The whole function: \<open>catch { return false; }\<close> around the body.\<close>

definition compareTokens_in :: "primitives \<Rightarrow> jsstring \<Rightarrow> jsstring \<Rightarrow> js_error + bool" where
  "compareTokens_in P providedToken validToken =
     (case compareTokens_try P providedToken validToken of
        Inl e \<Rightarrow> Inr False
      | Inr r \<Rightarrow> Inr r)"

definition compareTokens :: "jsstring \<Rightarrow> jsstring \<Rightarrow> bool" where
  "compareTokens providedToken validToken \<longleftrightarrow>
     compareTokens_in node providedToken validToken = Inr True"

section \<open>Configuration, token validator and path exemption\<close>

text \<open>
  \<open>getBearerTokens\<close> and \<open>getLogSecurityEvents\<close> read the process configuration
  (\<open>config/env\<close>), fixed at start; the module constant \<open>EXEMPTED_PATHS\<close> is the third
  piece of configuration. The functions below take the three as a record, and
  \<open>EXEMPTED_PATHS\<close> is the value the module gives the exempted set.
\<close>

record config =
  exemptedPaths :: "jsstring list"
  bearerTokens :: "jsstring list"
  logSecurityEvents :: bool

definition EXEMPTED_PATHS :: "jsstring list" where
  "EXEMPTED_PATHS = []"

text \<open>The \<open>for\<close> loop over the valid tokens, left at the first match.\<close>

primrec isValidToken_loop :: "jsstring \<Rightarrow> jsstring list \<Rightarrow> bool" where
  "isValidToken_loop tok [] = False"
| "isValidToken_loop tok (validToken # rest) =
     (if compareTokens tok validToken then True else isValidToken_loop tok rest)"

definition isValidToken :: "config \<Rightarrow> jsstring \<Rightarrow> bool" where
  "isValidToken cfg tok = isValidToken_loop tok (bearerTokens cfg)"

definition startsWith :: "jsstring \<Rightarrow> jsstring \<Rightarrow> bool" where
  "startsWith s p \<longleftrightarrow> take (length p) s = p"

definition isExemptedPath :: "jsstring list \<Rightarrow> jsstring \<Rightarrow> bool" where
  "isExemptedPath exempted pth =
     list_ex (\<lambda>exemptedPath. pth = exemptedPath \<or> startsWith pth (exemptedPath @ lit ''/''))
       exempted"

section \<open>Authentication decision\<close>

datatype AuthError = Missing_authorization | Invalid_scheme | Invalid_token | Malformed_header

fun error_string :: "AuthError \<Rightarrow> string" where
  "error_string Missing_authorization = ''Missing authorization''"
| "error_string Invalid_scheme = ''Invalid scheme''"
| "error_string Invalid_token = ''Invalid token''"
| "error_string Malformed_header = ''Malformed header''"

record BearerAuthResult =
  success :: bool
  exempted :: "bool option"
  error :: "AuthError option"
  message :: "string option"

definition validateBearerAuth :: "config \<Rightarrow> jsstring option \<Rightarrow> jsstring \<Rightarrow> BearerAuthResult" where
  "validateBearerAuth cfg authHeader pth =
     (if isExemptedPath (exemptedPaths cfg) pth then
        \<lparr>success = True, exempted = Some True, error = None, message = None\<rparr>
      else case authHeader of
        None \<Rightarrow>
          \<lparr>success = False, exempted = None, error = Some Missing_authorization,
           message = Some ''Authorization header is required. Format: Authorization: Bearer <token>''\<rparr>
      | Some h \<Rightarrow>
          if h = [] \<or> trim h = [] then
            \<lparr>success = False, exempted = None, error = Some Missing_authorization,
             message = Some ''Authorization header is required. Format: Authorization: Bearer <token>''\<rparr>
          else case parseAuthorizationHeader h of
            None \<Rightarrow>
              \<lparr>success = False, exempted = None, error = Some Malformed_header,
               message = Some ''Malformed Authorization header. Format: Authorization: Bearer <token>''\<rparr>
          | Some parsed \<Rightarrow>
              if scheme parsed \<noteq> lit ''bearer'' then
                \<lparr>success = False, exempted = None, error = Some Invalid_scheme,
                 message = Some ''Authorization header must use Bearer scheme. Format: Authorization: Bearer <token>''\<rparr>
              else if token parsed = [] then
                \<lparr>success = False, exempted = None, error = Some Malformed_header,
                 message = Some ''Bearer token cannot be empty. Format: Authorization: Bearer <token>''\<rparr>
              else if \<not> isValidToken cfg (token parsed) then
                \<lparr>success = False, exempted = None, error = Some Invalid_token,
                 message = Some ''Invalid Bearer token. Please check your authentication credentials.''\<rparr>
              else \<lparr>success = True, exempted = None, error = None, message = None\<rparr>)"

section \<open>The middleware\<close>

text \<open>
  The Express objects are reduced to what the middleware reads and writes. A request
  carries the two headers read, the path and the two address fields; the effects are the
  console lines written, the status and JSON body set on the response, and the calls of
  \<open>next\<close>. \<open>new Date().toISOString()\<close> reads a clock: the \<open>k\<close>-th reading is \<open>clock k\<close>,
  and \<open>dates\<close> counts the readings made.
\<close>

record Request =
  header_Authorization :: "jsstring option"
  header_User_Agent :: "jsstring option"
  path :: jsstring
  ip :: "jsstring option"
  remoteAddress :: "jsstring option"

record LogDetails =
  log_timestamp :: jsstring
  log_error :: "string option"
  log_path :: jsstring
  log_clientIp :: jsstring
  log_userAgent :: "jsstring option"

record ErrorBody =
  json_success :: bool
  json_error :: "string option"
  json_message :: "string option"
  json_timestamp :: jsstring

record Effects =
  dates :: nat
  console :: "(string \<times> LogDetails) list"
  statusCode :: nat
  body :: "ErrorBody option"
  nextCalls :: nat

definition getClientIP :: "Request \<Rightarrow> jsstring" where
  "getClientIP req =
     (case ip req of
        Some a \<Rightarrow> if a \<noteq> [] then a
                  else (case remoteAddress req of
                          Some b \<Rightarrow> if b \<noteq> [] then b else lit ''unknown''
                        | None \<Rightarrow> lit ''unknown'')
      | None \<Rightarrow> (case remoteAddress req of
                   Some b \<Rightarrow> if b \<noteq> [] then b else lit ''unknown''
                 | None \<Rightarrow> lit ''unknown''))"

definition logAuthenticationFailure ::
    "config \<Rightarrow> (nat \<Rightarrow> jsstring) \<Rightarrow> string \<Rightarrow> AuthError option \<Rightarrow> jsstring \<Rightarrow> jsstring \<Rightarrow>
     jsstring option \<Rightarrow> Effects \<Rightarrow> Effects" where
  "logAuthenticationFailure cfg clock event err pth clientIp userAgent w =
     (if logSecurityEvents cfg then
        w\<lparr>console := console w @
             [(''[SECURITY] '' @ event,
               \<lparr>log_timestamp = clock (dates w), log_error = map_option error_string err,
                log_path = pth, log_clientIp = clientIp, log_userAgent = userAgent\<rparr>)],
          dates := Suc (dates w)\<rparr>
      else w)"

definition bearerAuth :: "config \<Rightarrow> (nat \<Rightarrow> jsstring) \<Rightarrow> Request \<Rightarrow> Effects \<Rightarrow> Effects" where
  "bearerAuth cfg clock req w =
     (let authHeader = header_Authorization req;
          result = validateBearerAuth cfg authHeader (path req)
      in if \<not> success result then
           let w1 = logAuthenticationFailure cfg clock ''Authentication failed'' (error result)
                      (path req) (getClientIP req) (header_User_Agent req) w;
               w2 = w1\<lparr>statusCode := 401\<rparr>
           in w2\<lparr>body := Some \<lparr>json_success = False,
                                json_error = map_option error_string (error result),
                                json_message = message result,
                                json_timestamp = clock (dates w2)\<rparr>,
                  dates := Suc (dates w2)\<rparr>
         else w\<lparr>nextCalls := Suc (nextCalls w)\<rparr>)"

section \<open>The specification's wording, as definitions\<close>

text \<open>
  The tokens of a header in the specification's sense: white space separates, and a token
  is a maximal run of code units that are not white space. A header of white space only
  has no token.
\<close>

function ws_tokens :: "jsstring \<Rightarrow> jsstring list" where
  "ws_tokens [] = []"
| "ws_tokens (c # cs) =
     (if isWhiteSpace c then ws_tokens cs
      else (c # takeWhile (\<lambda>x. \<not> isWhiteSpace x) cs)
             # ws_tokens (dropWhile (\<lambda>x. \<not> isWhiteSpace x) cs))"
  by pat_completeness auto
termination
  by (relation "measure length") (auto simp: length_dropWhile_le less_Suc_eq_le)

text \<open>The upper-case letters of ASCII and of the Latin-1 supplement.\<close>

definition isUpperCase :: "code_unit \<Rightarrow> bool" where
  "isUpperCase c \<longleftrightarrow> (0x41 \<le> c \<and> c \<le> 0x5A) \<or> (0xC0 \<le> c \<and> c \<le> 0xDE \<and> c \<noteq> 0xD7)"

text \<open>The terminal states of the decision function and the steps 1 to 7 in their order.\<close>

datatype Decision = Exempted_success | Success | Failure AuthError

definition spec_parse :: "jsstring \<Rightarrow> (jsstring \<times> jsstring) option" where
  "spec_parse h = (case ws_tokens h of [s, t] \<Rightarrow> Some (toLowerCase s, t) | _ \<Rightarrow> None)"

definition spec_validate :: "jsstring list \<Rightarrow> jsstring \<Rightarrow> bool" where
  "spec_validate configured t = list_ex (\<lambda>v. Buffer_from t = Buffer_from v) configured"

definition spec_decision :: "config \<Rightarrow> jsstring option \<Rightarrow> jsstring \<Rightarrow> Decision" where
  "spec_decision cfg authHeader pth =
     (if isExemptedPath (exemptedPaths cfg) pth then Exempted_success
      else case authHeader of
        None \<Rightarrow> Failure Missing_authorization
      | Some h \<Rightarrow>
          if trim h = [] then Failure Missing_authorization
          else case spec_parse h of
            None \<Rightarrow> Failure Malformed_header
          | Some (s, t) \<Rightarrow>
              if s \<noteq> lit ''bearer'' then Failure Invalid_scheme
              else if t = [] then Failure Malformed_header
              else if \<not> spec_validate (bearerTokens cfg) t then Failure Invalid_token
              else Success)"

text \<open>What each terminal state is as a result value: the flags and the error code.\<close>

fun outcome :: "Decision \<Rightarrow> bool \<times> bool option \<times> string option" where
  "outcome Exempted_success = (True, Some True, None)"
| "outcome Success = (True, None, None)"
| "outcome (Failure e) = (False, None, Some (error_string e))"

section \<open>Well-formed strings and decoders\<close>

text \<open>
  A string is well formed when it has no unpaired surrogate. A header value (decoded from
  its bytes as Latin-1) and a configuration value (decoded from UTF-8) always are. The
  code points of a string pair the surrogates; an unpaired one reads as U+FFFD.
\<close>

fun well_formed :: "jsstring \<Rightarrow> bool" where
  "well_formed [] = True"
| "well_formed [c] = (\<not> isHighSurrogate c \<and> \<not> isLowSurrogate c)"
| "well_formed (c # d # cs) =
     (if isHighSurrogate c then isLowSurrogate d \<and> well_formed cs
      else \<not> isLowSurrogate c \<and> well_formed (d # cs))"

fun code_points :: "jsstring \<Rightarrow> nat list" where
  "code_points [] = []"
| "code_points [c] = [if isHighSurrogate c \<or> isLowSurrogate c then 0xFFFD else unat c]"
| "code_points (c # d # cs) =
     (if isHighSurrogate c \<and> isLowSurrogate d then surrogate_pair c d # code_points cs
      else if isHighSurrogate c \<or> isLowSurrogate c then 0xFFFD # code_points (d # cs)
      else unat c # code_points (d # cs))"

text \<open>
  Decoders, used to show that on well-formed strings the UTF-8 buffer determines the
  string: UTF-16 from code points, and code points from UTF-8 bytes.
\<close>

definition utf16_encode :: "nat \<Rightarrow> jsstring" where
  "utf16_encode cp =
     (if cp < 0x10000 then [of_nat cp]
      else [of_nat (0xD800 + (cp - 0x10000) div 0x400),
            of_nat (0xDC00 + (cp - 0x10000) mod 0x400)])"

fun utf8_decode :: "buffer \<Rightarrow> nat list" where
  "utf8_decode [] = []"
| "utf8_decode (b0 # bs) =
     (if b0 < 0x80 then unat b0 # utf8_decode bs
      else if b0 < 0xE0 then
        (case bs of
           b1 # r \<Rightarrow> ((unat b0 - 0xC0) * 0x40 + (unat b1 - 0x80)) # utf8_decode r
         | _ \<Rightarrow> [])
      else if b0 < 0xF0 then
        (case bs of
           b1 # b2 # r \<Rightarrow>
             ((unat b0 - 0xE0) * 0x1000 + (unat b1 - 0x80) * 0x40 + (unat b2 - 0x80))
               # utf8_decode r
         | _ \<Rightarrow> [])
      else
        (case bs of
           b1 # b2 # b3 # r \<Rightarrow>
             ((unat b0 - 0xF0) * 0x40000 + (unat b1 - 0x80) * 0x1000 + (unat b2 - 0x80) * 0x40
                + (unat b3 - 0x80)) # utf8_decode r
         | _ \<Rightarrow> []))"

section \<open>Properties of the comparator\<close>

text \<open>
  The accumulator of \<open>CRYPTO_memcmp\<close> ends at zero exactly when it started at zero and
  every byte pair was equal.
\<close>

lemma memcmp_fold_zero:
  "fold (\<lambda>(x, y) acc. acc OR (x XOR y)) ps acc = (0::byte) \<longleftrightarrow>
     acc = 0 \<and> (\<forall>(x, y) \<in> set ps. x = y)"
proof (induction ps arbitrary: acc)
  case Nil
  show ?case by simp
next
  case (Cons p ps)
  obtain x y where p: "p = (x, y)" by (cases p)
  have "x XOR y = 0 \<longleftrightarrow> x = y"
    by (metis bit.xor_left_self xor.right_neutral)
  then have "acc OR (x XOR y) = 0 \<longleftrightarrow> acc = 0 \<and> x = y"
    by (simp add: or_eq_0_iff)
  with Cons.IH [of "acc OR (x XOR y)"] p show ?case by auto
qed

lemma CRYPTO_memcmp_zero_iff:
  "length a = length b \<Longrightarrow> CRYPTO_memcmp a b = 0 \<longleftrightarrow> a = b"
  unfolding CRYPTO_memcmp_def memcmp_fold_zero
  by (simp add: list_eq_iff_zip_eq)

lemma compareTokens_try_node:
  "compareTokens_try node a b = Inr (Buffer_from a = Buffer_from b)"
proof (cases "length (Buffer_from a) = length (Buffer_from b)")
  case True
  then show ?thesis
    by (simp add: compareTokens_try_def node_def CRYPTO_memcmp_zero_iff)
next
  case False
  then have "Buffer_from a \<noteq> Buffer_from b" by auto
  with False show ?thesis
    by (simp add: compareTokens_try_def node_def)
qed

lemma compareTokens_bytes: "compareTokens a b \<longleftrightarrow> Buffer_from a = Buffer_from b"
  by (simp add: compareTokens_def compareTokens_in_def compareTokens_try_node)

text \<open>
  The buffer of a string is the UTF-8 encoding of its code points, both encodings decode,
  and so, without unpaired surrogates, equal buffers come from equal strings. Two
  different unpaired surrogates give the same three bytes.
\<close>

lemma Buffer_from_code_points: "Buffer_from s = concat (map utf8_encode (code_points s))"
  by (induction s rule: Buffer_from.induct) simp_all

lemma byte_of_nat: "n < 256 \<Longrightarrow> unat (of_nat n :: byte) = n"
  by (simp add: unat_of_nat)

lemma radix64_3:
  "(x::nat) div 0x1000 * 0x1000 + x div 0x40 mod 0x40 * 0x40 + x mod 0x40 = x"
proof -
  define a where "a = x div 0x40 div 0x40"
  define b where "b = x div 0x40 mod 0x40"
  define c where "c = x mod 0x40"
  have y: "a * 0x40 + b = x div 0x40" by (simp add: a_def b_def)
  have x: "x div 0x40 * 0x40 + c = x" by (simp add: c_def)
  have d: "x div 0x1000 = a" by (simp add: a_def div_mult2_eq)
  have "x div 0x1000 * 0x1000 + x div 0x40 mod 0x40 * 0x40 + x mod 0x40
      = a * 0x1000 + b * 0x40 + c"
    by (simp only: d b_def c_def)
  also have "\<dots> = (a * 0x40 + b) * 0x40 + c" by simp
  also have "\<dots> = x" by (simp only: y x)
  finally show ?thesis .
qed

lemma radix64_4:
  "(x::nat) div 0x40000 * 0x40000 + x div 0x1000 mod 0x40 * 0x1000
     + x div 0x40 mod 0x40 * 0x40 + x mod 0x40 = x"
proof -
  define a where "a = x div 0x1000 div 0x40"
  define b where "b = x div 0x1000 mod 0x40"
  define r where "r = x div 0x40 mod 0x40 * 0x40 + x mod 0x40"
  have y: "a * 0x40 + b = x div 0x1000" by (simp add: a_def b_def)
  have x: "x div 0x1000 * 0x1000 + r = x"
    using radix64_3 [of x] by (simp add: r_def)
  have d: "x div 0x40000 = a" by (simp add: a_def div_mult2_eq)
  have "x div 0x40000 * 0x40000 + x div 0x1000 mod 0x40 * 0x1000
          + x div 0x40 mod 0x40 * 0x40 + x mod 0x40
      = a * 0x40000 + b * 0x1000 + r"
    by (simp only: d b_def r_def add.assoc)
  also have "\<dots> = (a * 0x40 + b) * 0x1000 + r" by simp
  also have "\<dots> = x" by (simp only: y x)
  finally show ?thesis .
qed

lemma utf8_decode_encode:
  assumes "x < 0x110000"
  shows "utf8_decode (utf8_encode x @ r) = x # utf8_decode r"
proof -
  consider "x < 0x80" | "0x80 \<le> x" "x < 0x800" | "0x800 \<le> x" "x < 0x10000" | "0x10000 \<le> x"
    by linarith
  then show ?thesis
  proof cases
    case 1
    define b0 :: byte where "b0 = of_nat x"
    have u: "unat b0 = x"
      unfolding b0_def using 1 by (intro byte_of_nat) arith
    have "utf8_encode x = [b0]"
      using 1 by (simp add: utf8_encode_def b0_def)
    then show ?thesis using 1 by (simp add: word_less_nat_alt u)
  next
    case 2
    define b0 :: byte where "b0 = of_nat (0xC0 + x div 0x40)"
    define b1 :: byte where "b1 = of_nat (0x80 + x mod 0x40)"
    have u: "unat b0 = 0xC0 + x div 0x40" "unat b1 = 0x80 + x mod 0x40"
      unfolding b0_def b1_def using 2 by - (rule byte_of_nat, arith)+
    have q: "x div 0x40 < 0x20" using 2 by arith
    have "utf8_encode x = [b0, b1]"
      using 2 by (simp add: utf8_encode_def b0_def b1_def)
    then show ?thesis using q by (simp add: word_less_nat_alt u)
  next
    case 3
    define b0 :: byte where "b0 = of_nat (0xE0 + x div 0x1000)"
    define b1 :: byte where "b1 = of_nat (0x80 + x div 0x40 mod 0x40)"
    define b2 :: byte where "b2 = of_nat (0x80 + x mod 0x40)"
    have u: "unat b0 = 0xE0 + x div 0x1000" "unat b1 = 0x80 + x div 0x40 mod 0x40"
      "unat b2 = 0x80 + x mod 0x40"
      unfolding b0_def b1_def b2_def using 3 by - (rule byte_of_nat, arith)+
    have q: "x div 0x1000 < 0x10" using 3 by arith
    note b = radix64_3 [of x]
    have "utf8_encode x = [b0, b1, b2]"
      using 3 by (simp add: utf8_encode_def b0_def b1_def b2_def)
    then show ?thesis using q b by (simp add: word_less_nat_alt u)
  next
    case 4
    define b0 :: byte where "b0 = of_nat (0xF0 + x div 0x40000)"
    define b1 :: byte where "b1 = of_nat (0x80 + x div 0x1000 mod 0x40)"
    define b2 :: byte where "b2 = of_nat (0x80 + x div 0x40 mod 0x40)"
    define b3 :: byte where "b3 = of_nat (0x80 + x mod 0x40)"
    have u: "unat b0 = 0xF0 + x div 0x40000" "unat b1 = 0x80 + x div 0x1000 mod 0x40"
      "unat b2 = 0x80 + x div 0x40 mod 0x40" "unat b3 = 0x80 + x mod 0x40"
      unfolding b0_def b1_def b2_def b3_def using 4 assms by - (rule byte_of_nat, arith)+
    note b = radix64_4 [of x]
    have "utf8_encode x = [b0, b1, b2, b3]"
      using 4 by (simp add: utf8_encode_def b0_def b1_def b2_def b3_def)
    then show ?thesis using b by (simp add: word_less_nat_alt u)
  qed
qed

lemma utf8_decode_concat:
  "\<forall>x \<in> set xs. x < 0x110000 \<Longrightarrow> utf8_decode (concat (map utf8_encode xs)) = xs"
  by (induction xs) (simp_all add: utf8_decode_encode)

lemma surrogate_pair_bound:
  "isHighSurrogate c \<Longrightarrow> isLowSurrogate d \<Longrightarrow>
   0x10000 \<le> surrogate_pair c d \<and> surrogate_pair c d < 0x110000"
  unfolding isHighSurrogate_def isLowSurrogate_def surrogate_pair_def word_le_nat_alt
  by simp arith

lemma code_points_bound: "\<forall>x \<in> set (code_points s). x < 0x110000"
proof (induction s rule: code_points.induct)
  case 1
  show ?case by simp
next
  case (2 c)
  have "unat c < 0x10000" using unsigned_less [where ?'a = nat, of c] by simp
  then show ?case by simp
next
  case (3 c d cs)
  have "unat c < 0x10000" using unsigned_less [where ?'a = nat, of c] by simp
  with 3 surrogate_pair_bound [of c d] show ?case by auto
qed

lemma utf16_encode_pair:
  assumes "isHighSurrogate c" "isLowSurrogate d"
  shows "utf16_encode (surrogate_pair c d) = [c, d]"
proof -
  from assms have c: "0xD800 \<le> unat c" "unat c \<le> 0xDBFF" and d: "0xDC00 \<le> unat d" "unat d \<le> 0xDFFF"
    by (simp_all add: isHighSurrogate_def isLowSurrogate_def word_le_nat_alt)
  define i where "i = unat c - 0xD800"
  define j where "j = unat d - 0xDC00"
  have j: "j < 0x400" using d by (simp add: j_def)
  have sp: "surrogate_pair c d - 0x10000 = i * 0x400 + j"
    by (simp add: surrogate_pair_def i_def j_def)
  have "(i * 0x400 + j) div 0x400 = i" "(i * 0x400 + j) mod 0x400 = j"
    using j by simp_all
  then have "0xD800 + (surrogate_pair c d - 0x10000) div 0x400 = unat c"
    "0xDC00 + (surrogate_pair c d - 0x10000) mod 0x400 = unat d"
    using c d by (simp_all add: sp i_def j_def)
  moreover have "\<not> surrogate_pair c d < 0x10000"
    using surrogate_pair_bound [OF assms] by simp
  ultimately show ?thesis by (simp add: utf16_encode_def)
qed

lemma utf16_encode_unit: "utf16_encode (unat c) = [c]"
proof -
  have "unat c < 0x10000" using unsigned_less [where ?'a = nat, of c] by simp
  then show ?thesis by (simp add: utf16_encode_def)
qed

lemma utf16_encode_code_points:
  "well_formed s \<Longrightarrow> concat (map utf16_encode (code_points s)) = s"
proof (induction s rule: code_points.induct)
  case 1
  show ?case by simp
next
  case (2 c)
  then show ?case by (simp add: utf16_encode_unit)
next
  case (3 c d cs)
  show ?case
  proof (cases "isHighSurrogate c")
    case True
    with 3(4) have d: "isLowSurrogate d" and wf: "well_formed cs" by simp_all
    from 3(1) True d wf have "concat (map utf16_encode (code_points cs)) = cs" by simp
    with True d show ?thesis by (simp add: utf16_encode_pair)
  next
    case False
    with 3(4) have nl: "\<not> isLowSurrogate c" and wf: "well_formed (d # cs)" by simp_all
    from 3(3) False nl wf have "concat (map utf16_encode (code_points (d # cs))) = d # cs" by simp
    with False nl show ?thesis by (simp add: utf16_encode_unit)
  qed
qed

lemma Buffer_from_inj:
  assumes "well_formed a" "well_formed b" "Buffer_from a = Buffer_from b"
  shows "a = b"
proof -
  have "utf8_decode (Buffer_from a) = code_points a" "utf8_decode (Buffer_from b) = code_points b"
    by (simp_all add: Buffer_from_code_points utf8_decode_concat code_points_bound)
  with assms(3) have "code_points a = code_points b" by simp
  then have "concat (map utf16_encode (code_points a)) = concat (map utf16_encode (code_points b))"
    by simp
  with assms(1,2) show ?thesis by (simp add: utf16_encode_code_points)
qed

lemma compareTokens_unpaired_surrogates: "compareTokens [0xD800] [0xDC00]"
  by (simp add: compareTokens_bytes isHighSurrogate_def isLowSurrogate_def)

text \<open>
  Claim C2. For all strings \<open>a\<close> and \<open>b\<close>, \<open>compareTokens a b\<close> is true exactly when the
  two strings are byte-identical, that is when their UTF-8 buffers are the same bytes; in
  particular it is false when the byte lengths differ. For well-formed strings the buffers
  are the same exactly when the strings are.
\<close>

theorem compareTokens_iff_byte_identical:
  "(compareTokens a b \<longleftrightarrow> Buffer_from a = Buffer_from b) \<and>
   (length (Buffer_from a) \<noteq> length (Buffer_from b) \<longrightarrow> \<not> compareTokens a b) \<and>
   (well_formed a \<and> well_formed b \<longrightarrow> (compareTokens a b \<longleftrightarrow> a = b))"
  using Buffer_from_inj [of a b] by (auto simp: compareTokens_bytes)

theorem compareTokens_iff_byte_identical_witness:
  "compareTokens (lit ''token123'') (lit ''token123'') \<and>
   \<not> compareTokens (lit ''token123'') (lit ''token456'') \<and>
   length (Buffer_from (lit ''ab'')) \<noteq> length (Buffer_from (lit ''abc'')) \<and>
   \<not> compareTokens (lit ''ab'') (lit ''abc'') \<and>
   well_formed (lit ''token123'') \<and> well_formed (lit ''token456'')"
proof -
  have l: "length (Buffer_from (lit ''ab'')) \<noteq> length (Buffer_from (lit ''abc''))"
    by (simp add: lit_def isHighSurrogate_def isLowSurrogate_def utf8_encode_def)
  have w: "well_formed (lit ''token123'')" "well_formed (lit ''token456'')"
    by (simp_all add: lit_def isHighSurrogate_def isLowSurrogate_def)
  have d: "lit ''token123'' \<noteq> lit ''token456''"
    by (simp add: lit_def)
  show ?thesis
    using l w d compareTokens_iff_byte_identical [of "lit ''token123''" "lit ''token123''"]
      compareTokens_iff_byte_identical [of "lit ''token123''" "lit ''token456''"]
      compareTokens_iff_byte_identical [of "lit ''ab''" "lit ''abc''"]
    by blast
qed

text \<open>
  A fault of the \<open>try\<close> block is a throw of one of the primitives, in the order they are
  called; the comparison is only reached with buffers of one length.
\<close>

lemma compareTokens_in_cases:
  "compareTokens_in P a b = Inr False \<or> compareTokens_in P a b = Inr True"
  by (cases "compareTokens_try P a b") (auto simp: compareTokens_in_def)

lemma compareTokens_try_faults:
  "compareTokens_try P a b = Inl e \<longleftrightarrow>
     bufferFrom P a = Inl e \<or>
     (\<exists>pa. bufferFrom P a = Inr pa \<and>
        (bufferFrom P b = Inl e \<or>
         (\<exists>pb. bufferFrom P b = Inr pb \<and> length pa = length pb \<and>
               timingSafeEqual P pa pb = Inl e)))"
  by (auto simp: compareTokens_try_def split: sum.splits)

text \<open>
  Claim C8. Whatever the primitives do, an exception raised while the tokens are compared
  (while either buffer is built, or inside the equality primitive) makes the comparator
  return false; the comparator never returns true on a fault and never passes an
  exception to its caller. With Node's primitives on strings the \<open>try\<close> block raises
  nothing at all.
\<close>

theorem compareTokens_fault_is_false:
  "(compareTokens_try P a b = Inl e \<longrightarrow> compareTokens_in P a b = Inr False) \<and>
   (bufferFrom P a = Inl e \<longrightarrow> compareTokens_in P a b = Inr False) \<and>
   (bufferFrom P a = Inr pa \<and> bufferFrom P b = Inl e \<longrightarrow> compareTokens_in P a b = Inr False) \<and>
   (bufferFrom P a = Inr pa \<and> bufferFrom P b = Inr pb \<and> length pa = length pb \<and>
    timingSafeEqual P pa pb = Inl e \<longrightarrow> compareTokens_in P a b = Inr False) \<and>
   compareTokens_in P a b \<noteq> Inl e' \<and>
   compareTokens_try node a b \<noteq> Inl e'"
proof -
  have 1: "compareTokens_try P a b = Inl e \<Longrightarrow> compareTokens_in P a b = Inr False"
    by (simp add: compareTokens_in_def)
  have 2: "compareTokens_in P a b \<noteq> Inl e'"
    using compareTokens_in_cases [of P a b] by auto
  have 3: "compareTokens_try node a b \<noteq> Inl e'"
    by (simp add: compareTokens_try_node)
  show ?thesis
    using 1 2 3 by (auto simp: compareTokens_try_faults)
qed

theorem compareTokens_fault_is_false_witness:
  "compareTokens_try
     \<lparr>bufferFrom = (\<lambda>s. Inl TypeError), timingSafeEqual = (\<lambda>a b. Inr True)\<rparr> [] []
     = Inl TypeError \<and>
   compareTokens_in
     \<lparr>bufferFrom = (\<lambda>s. Inl TypeError), timingSafeEqual = (\<lambda>a b. Inr True)\<rparr> [] []
     = Inr False \<and>
   timingSafeEqual
     \<lparr>bufferFrom = (\<lambda>s. Inr []), timingSafeEqual = (\<lambda>a b. Inl OtherError)\<rparr> [] []
     = Inl OtherError \<and>
   compareTokens_in
     \<lparr>bufferFrom = (\<lambda>s. Inr []), timingSafeEqual = (\<lambda>a b. Inl OtherError)\<rparr> [] []
     = Inr False"
proof -
  let ?P = "\<lparr>bufferFrom = (\<lambda>s::jsstring. Inl TypeError :: js_error + buffer),
             timingSafeEqual = (\<lambda>a b. Inr True :: js_error + bool)\<rparr>"
  let ?Q = "\<lparr>bufferFrom = (\<lambda>s::jsstring. Inr [] :: js_error + buffer),
             timingSafeEqual = (\<lambda>a b. Inl OtherError :: js_error + bool)\<rparr>"
  have p: "compareTokens_try ?P [] [] = Inl TypeError"
    by (simp add: compareTokens_try_def)
  have q: "bufferFrom ?Q [] = Inr []" "timingSafeEqual ?Q [] [] = Inl OtherError"
    by simp_all
  show ?thesis
    using p q compareTokens_fault_is_false [of ?P "[]" "[]" TypeError]
      compareTokens_fault_is_false [of ?Q "[]" "[]" OtherError "[]" "[]"]
    by simp
qed

section \<open>Properties of the token validator and of the path exemption\<close>

lemma isValidToken_loop_iff:
  "isValidToken_loop t vs \<longleftrightarrow> (\<exists>v \<in> set vs. Buffer_from t = Buffer_from v)"
  by (induction vs) (auto simp: compareTokens_bytes)

text \<open>
  Claim C4. For every candidate and every configured token set, \<open>isValidToken\<close> is true
  exactly when the candidate is byte-identical to at least one entry of the set; with an
  empty set it is false for every candidate. For well-formed strings that is membership
  in the set.
\<close>

theorem isValidToken_iff_some_entry:
  "(isValidToken cfg t \<longleftrightarrow> (\<exists>v \<in> set (bearerTokens cfg). Buffer_from t = Buffer_from v)) \<and>
   (bearerTokens cfg = [] \<longrightarrow> \<not> isValidToken cfg t) \<and>
   (well_formed t \<and> (\<forall>v \<in> set (bearerTokens cfg). well_formed v) \<longrightarrow>
      (isValidToken cfg t \<longleftrightarrow> t \<in> set (bearerTokens cfg)))"
proof -
  have "well_formed t \<Longrightarrow> \<forall>v \<in> set (bearerTokens cfg). well_formed v \<Longrightarrow>
      (\<exists>v \<in> set (bearerTokens cfg). Buffer_from t = Buffer_from v) \<longleftrightarrow> t \<in> set (bearerTokens cfg)"
    using Buffer_from_inj [of t] by blast
  then show ?thesis by (auto simp: isValidToken_def isValidToken_loop_iff)
qed

theorem isValidToken_iff_some_entry_witness:
  "isValidToken \<lparr>exemptedPaths = [], bearerTokens = [lit ''t1'', lit ''t2''],
                 logSecurityEvents = False\<rparr> (lit ''t2'') \<and>
   \<not> isValidToken \<lparr>exemptedPaths = [], bearerTokens = [lit ''t1'', lit ''t2''],
                   logSecurityEvents = False\<rparr> (lit ''t3'') \<and>
   \<not> isValidToken \<lparr>exemptedPaths = [], bearerTokens = [lit ''t1'', lit ''t2''],
                   logSecurityEvents = False\<rparr> [] \<and>
   bearerTokens \<lparr>exemptedPaths = [], bearerTokens = [], logSecurityEvents = False\<rparr> = [] \<and>
   \<not> isValidToken \<lparr>exemptedPaths = [], bearerTokens = [], logSecurityEvents = False\<rparr>
       (lit ''t1'') \<and>
   well_formed (lit ''t1'') \<and> well_formed (lit ''t2'') \<and> well_formed (lit ''t3'')"
proof -
  let ?c = "\<lparr>exemptedPaths = [], bearerTokens = [lit ''t1'', lit ''t2''],
             logSecurityEvents = False\<rparr>"
  let ?e = "\<lparr>exemptedPaths = [], bearerTokens = [], logSecurityEvents = False\<rparr>"
  have w: "well_formed (lit ''t1'')" "well_formed (lit ''t2'')" "well_formed (lit ''t3'')"
    "well_formed []"
    by (simp_all add: lit_def isHighSurrogate_def isLowSurrogate_def)
  have b: "Buffer_from (lit ''t1'') = [0x74, 0x31]" "Buffer_from (lit ''t2'') = [0x74, 0x32]"
    "Buffer_from (lit ''t3'') = [0x74, 0x33]" "Buffer_from [] = []"
    by (simp_all add: lit_def isHighSurrogate_def isLowSurrogate_def utf8_encode_def)
  show ?thesis
    using w isValidToken_iff_some_entry [of ?c "lit ''t2''"]
      isValidToken_iff_some_entry [of ?c "lit ''t3''"]
      isValidToken_iff_some_entry [of ?c "[]"]
      isValidToken_iff_some_entry [of ?e "lit ''t1''"]
    by (simp add: b)
qed

lemma startsWith_iff: "startsWith s p \<longleftrightarrow> (\<exists>r. s = p @ r)"
  unfolding startsWith_def
proof
  assume "take (length p) s = p"
  then have "s = p @ drop (length p) s"
    by (metis append_take_drop_id)
  then show "\<exists>r. s = p @ r" ..
next
  assume "\<exists>r. s = p @ r"
  then show "take (length p) s = p" by auto
qed

text \<open>
  Claim C7. For every path and every exempted set, \<open>isExemptedPath\<close> is true exactly when
  the path equals an exempted entry or starts with an entry immediately followed by the
  separator \<open>/\<close>; it is false for every path when the set is empty, which is the value of
  \<open>EXEMPTED_PATHS\<close>.
\<close>

theorem isExemptedPath_iff:
  "(isExemptedPath ex p \<longleftrightarrow>
      (\<exists>e \<in> set ex. p = e \<or> (\<exists>r. p = e @ lit ''/'' @ r))) \<and>
   \<not> isExemptedPath [] p \<and> \<not> isExemptedPath EXEMPTED_PATHS p"
  by (auto simp: isExemptedPath_def list_ex_iff startsWith_iff EXEMPTED_PATHS_def)

theorem isExemptedPath_iff_witness:
  "isExemptedPath [lit ''/api/health''] (lit ''/api/health'') \<and>
   isExemptedPath [lit ''/api/health''] (lit ''/api/health/detailed'') \<and>
   \<not> isExemptedPath [lit ''/api/health''] (lit ''/api/healthx'') \<and>
   \<not> isExemptedPath EXEMPTED_PATHS (lit ''/api/health'')"
proof -
  have 1: "lit ''/api/health/detailed'' = lit ''/api/health'' @ lit ''/'' @ lit ''detailed''"
    by (simp add: lit_def)
  have 2: "\<not> (\<exists>r. lit ''/api/healthx'' = lit ''/api/health'' @ lit ''/'' @ r)"
    by (simp add: lit_def)
  have 3: "lit ''/api/healthx'' \<noteq> lit ''/api/health''"
    by (simp add: lit_def)
  show ?thesis
    using 1 2 3 isExemptedPath_iff [of "[lit ''/api/health'']" "lit ''/api/health''"]
      isExemptedPath_iff [of "[lit ''/api/health'']" "lit ''/api/health/detailed''"]
      isExemptedPath_iff [of "[lit ''/api/health'']" "lit ''/api/healthx''"]
      isExemptedPath_iff [of "[]" "lit ''/api/health''"]
    by auto
qed

section \<open>Properties of the header parser\<close>

text \<open>
  The pieces of a trimmed header are its tokens: the scan of \<open>split\<close> opens no empty piece
  when the string neither starts nor ends with white space.
\<close>

lemma ws_tokens_all_ws: "ws_tokens s = [] \<longleftrightarrow> (\<forall>x \<in> set s. isWhiteSpace x)"
  by (induction s) auto

lemma ws_tokens_dropWhile: "ws_tokens (dropWhile isWhiteSpace s) = ws_tokens s"
  by (induction s) auto

lemma ws_tokens_append_ws:
  "\<forall>x \<in> set w. isWhiteSpace x \<Longrightarrow> ws_tokens (s @ w) = ws_tokens s"
proof (induction s rule: ws_tokens.induct)
  case 1
  then show ?case by (simp add: ws_tokens_all_ws)
next
  case (2 c cs)
  show ?case
  proof (cases "isWhiteSpace c")
    case True
    with 2 show ?thesis by simp
  next
    case False
    show ?thesis
    proof (cases "\<forall>x \<in> set cs. \<not> isWhiteSpace x")
      case True
      have w: "takeWhile (\<lambda>x. \<not> isWhiteSpace x) w = []" "ws_tokens w = []"
        using 2(3) by (cases w; simp add: ws_tokens_all_ws)+
      from True have eqs: "takeWhile (\<lambda>x. \<not> isWhiteSpace x) (cs @ w) = cs"
        "dropWhile (\<lambda>x. \<not> isWhiteSpace x) (cs @ w) = dropWhile (\<lambda>x. \<not> isWhiteSpace x) w"
        "takeWhile (\<lambda>x. \<not> isWhiteSpace x) cs = cs" "dropWhile (\<lambda>x. \<not> isWhiteSpace x) cs = []"
        using w by (simp_all add: takeWhile_append2 dropWhile_append2)
      have "ws_tokens (dropWhile (\<lambda>x. \<not> isWhiteSpace x) w) = []"
        using 2(3) by (auto simp: ws_tokens_all_ws dest: set_dropWhileD)
      then show ?thesis using False by (simp add: eqs)
    next
      case nall: False
      then have "takeWhile (\<lambda>x. \<not> isWhiteSpace x) (cs @ w) = takeWhile (\<lambda>x. \<not> isWhiteSpace x) cs"
        "dropWhile (\<lambda>x. \<not> isWhiteSpace x) (cs @ w) = dropWhile (\<lambda>x. \<not> isWhiteSpace x) cs @ w"
        by (auto simp: takeWhile_append1 dropWhile_append1)
      with 2(2) [OF False 2(3)] False show ?thesis by simp
    qed
  qed
qed

lemma rev_drop_take_rev:
  "xs = rev (dropWhile P (rev xs)) @ rev (takeWhile P (rev xs))"
  by (simp flip: rev_append)

lemma dropWhile_none: "\<forall>x \<in> set xs. \<not> P x \<Longrightarrow> dropWhile P xs = xs"
  by (cases xs) auto

lemma dropWhile_rev_nonempty: "dropWhile P (rev xs) \<noteq> [] \<Longrightarrow> xs \<noteq> []"
  by auto

lemma trim_decomp:
  "dropWhile isWhiteSpace s =
     trim s @ rev (takeWhile isWhiteSpace (rev (dropWhile isWhiteSpace s)))"
  unfolding trim_def by (rule rev_drop_take_rev)

lemma ws_tokens_trim: "ws_tokens (trim s) = ws_tokens s"
proof -
  let ?d = "dropWhile isWhiteSpace s"
  let ?w = "rev (takeWhile isWhiteSpace (rev ?d))"
  have "\<forall>x \<in> set ?w. isWhiteSpace x"
    by (auto dest: set_takeWhileD)
  then have "ws_tokens (trim s @ ?w) = ws_tokens (trim s)"
    by (rule ws_tokens_append_ws)
  moreover have "ws_tokens (trim s @ ?w) = ws_tokens ?d"
    using trim_decomp [of s] by simp
  ultimately show ?thesis by (simp add: ws_tokens_dropWhile)
qed

lemma takeWhile_not_ws: "\<forall>x \<in> set (takeWhile (\<lambda>x. \<not> isWhiteSpace x) cs). \<not> isWhiteSpace x"
  by (auto dest: set_takeWhileD)

lemma ws_tokens_shape:
  "t \<in> set (ws_tokens s) \<Longrightarrow> t \<noteq> [] \<and> (\<forall>x \<in> set t. \<not> isWhiteSpace x)"
proof (induction s rule: ws_tokens.induct)
  case 1
  then show ?case by simp
next
  case (2 c cs)
  show ?case
  proof (cases "isWhiteSpace c")
    case True
    with 2(3) have "t \<in> set (ws_tokens cs)" by simp
    with 2(1) [OF True] show ?thesis .
  next
    case False
    with 2(3) consider "t = c # takeWhile (\<lambda>x. \<not> isWhiteSpace x) cs" | "t \<in> set (ws_tokens (dropWhile (\<lambda>x. \<not> isWhiteSpace x) cs))"
      by auto
    then show ?thesis
    proof cases
      case 1
      then show ?thesis using False takeWhile_not_ws [of cs] by simp
    next
      case 2
      with "2.IH"(2) [OF False] show ?thesis .
    qed
  qed
qed

lemma trim_no_ws:
  assumes "\<forall>x \<in> set t. \<not> isWhiteSpace x"
  shows "trim t = t"
proof -
  have 1: "dropWhile isWhiteSpace t = t"
    using assms by (rule dropWhile_none)
  have "\<forall>x \<in> set (rev t). \<not> isWhiteSpace x" using assms by simp
  then have 2: "dropWhile isWhiteSpace (rev t) = rev t"
    by (rule dropWhile_none)
  show ?thesis by (simp add: trim_def 1 2)
qed

lemma trim_ends:
  assumes "trim s \<noteq> []"
  shows "\<not> isWhiteSpace (hd (trim s))" "\<not> isWhiteSpace (last (trim s))"
proof -
  let ?d = "dropWhile isWhiteSpace s"
  let ?e = "dropWhile isWhiteSpace (rev ?d)"
  from assms have e: "?e \<noteq> []" by (simp add: trim_def)
  then have "\<not> isWhiteSpace (hd ?e)" by (rule hd_dropWhile)
  then show "\<not> isWhiteSpace (last (trim s))"
    using e by (simp add: trim_def last_rev)
  from e have d: "?d \<noteq> []" by (rule dropWhile_rev_nonempty)
  then have hd: "\<not> isWhiteSpace (hd ?d)" by (rule hd_dropWhile)
  have "hd ?d = hd (trim s @ rev (takeWhile isWhiteSpace (rev ?d)))"
    using trim_decomp [of s] by simp
  also have "\<dots> = hd (trim s)" using assms by (rule hd_append2)
  finally show "\<not> isWhiteSpace (hd (trim s))" using hd by simp
qed

lemma trim_empty_iff: "trim s = [] \<longleftrightarrow> ws_tokens s = []"
proof
  assume "trim s = []"
  then have "ws_tokens (trim s) = []" by simp
  then show "ws_tokens s = []" by (simp add: ws_tokens_trim)
next
  assume "ws_tokens s = []"
  then have all: "\<forall>x \<in> set (trim s). isWhiteSpace x"
    by (simp add: ws_tokens_trim flip: ws_tokens_all_ws)
  show "trim s = []"
  proof (rule ccontr)
    assume ne: "trim s \<noteq> []"
    then have "hd (trim s) \<in> set (trim s)" by (rule hd_in_set)
    with all trim_ends(1) [OF ne] show False by blast
  qed
qed

lemma splitLoop_tokens:
  "s = [] \<or> \<not> isWhiteSpace (last s) \<Longrightarrow>
   splitLoop cur s =
     (case s of [] \<Rightarrow> [cur]
      | c # cs \<Rightarrow> if isWhiteSpace c then cur # ws_tokens s
                  else (cur @ takeWhile (\<lambda>x. \<not> isWhiteSpace x) s) # ws_tokens (dropWhile (\<lambda>x. \<not> isWhiteSpace x) s))"
proof (induction cur s rule: splitLoop.induct)
  case (1 cur)
  show ?case by simp
next
  case (2 cur c cs)
  show ?case
  proof (cases "isWhiteSpace c")
    case True
    let ?r = "dropWhile isWhiteSpace cs"
    from 2(3) True have cs: "cs \<noteq> []" "\<not> isWhiteSpace (last cs)"
      by (cases "cs = []"; simp)+
    then have rne: "?r \<noteq> []" by (auto simp: dropWhile_eq_Nil_conv)
    then have hd: "\<not> isWhiteSpace (hd ?r)" by (rule hd_dropWhile)
    have "last (takeWhile isWhiteSpace cs @ ?r) = last ?r"
      using rne by (rule last_appendR)
    then have "last ?r = last cs" by simp
    with cs have "?r = [] \<or> \<not> isWhiteSpace (last ?r)" by simp
    from 2(1) [OF True this] rne hd
    have "splitLoop [] ?r = ws_tokens ?r"
      by (cases ?r) auto
    then show ?thesis using True by (simp add: ws_tokens_dropWhile)
  next
    case False
    from 2(3) have "cs = [] \<or> \<not> isWhiteSpace (last cs)" by (auto split: if_splits)
    from 2(2) [OF False this] False show ?thesis
      by (cases cs) auto
  qed
qed

lemma split_ws_trim:
  "split_ws (trim h) = (if ws_tokens h = [] then [[]] else ws_tokens h)"
proof (cases "trim h = []")
  case True
  then have "split_ws (trim h) = [[]]" by (simp add: split_ws_def)
  moreover from True have "ws_tokens h = []" by (simp add: trim_empty_iff)
  ultimately show ?thesis by simp
next
  case False
  then obtain c cs where t: "trim h = c # cs" by (cases "trim h") auto
  from trim_ends [OF False] t have c: "\<not> isWhiteSpace c" and l: "\<not> isWhiteSpace (last (c # cs))"
    by auto
  have "splitLoop [] (c # cs) = ws_tokens (c # cs)"
    using splitLoop_tokens [of "c # cs" "[]"] c l by simp
  then have "split_ws (trim h) = ws_tokens (trim h)" by (simp add: split_ws_def t)
  moreover from False have "ws_tokens h \<noteq> []" by (simp add: trim_empty_iff)
  ultimately show ?thesis by (simp add: ws_tokens_trim)
qed

lemma parse_tokens:
  "parseAuthorizationHeader h =
     (case ws_tokens h of [s, t] \<Rightarrow> Some \<lparr>scheme = toLowerCase s, token = t\<rparr> | _ \<Rightarrow> None)"
proof (cases "ws_tokens h")
  case Nil
  then show ?thesis by (simp add: parseAuthorizationHeader_def split_ws_trim)
next
  case (Cons a r)
  note outer = Cons
  show ?thesis
  proof (cases r)
    case Nil
    with outer show ?thesis by (simp add: parseAuthorizationHeader_def split_ws_trim)
  next
    case (Cons b r2)
    note mid = Cons
    show ?thesis
    proof (cases r2)
      case Nil
      with outer mid have toks: "ws_tokens h = [a, b]" by simp
      then have "a \<in> set (ws_tokens h)" "b \<in> set (ws_tokens h)" by simp_all
      then have "a \<noteq> []" "b \<noteq> []" "\<forall>x \<in> set b. \<not> isWhiteSpace x"
        using ws_tokens_shape by blast+
      then show ?thesis
        by (simp add: parseAuthorizationHeader_def split_ws_trim toks trim_no_ws)
    next
      case (Cons c r3)
      with outer mid show ?thesis
        by (simp add: parseAuthorizationHeader_def split_ws_trim)
    qed
  qed
qed



lemma lowerUnit_not_upper: "\<not> isUpperCase (lowerUnit c)"
  unfolding lowerUnit_def isUpperCase_def
  by unat_arith

lemma parse_nonempty:
  assumes "parseAuthorizationHeader h = Some pr"
  shows "scheme pr \<noteq> []" "token pr \<noteq> []" "\<forall>c \<in> set (scheme pr). \<not> isUpperCase c"
proof -
  from assms obtain s t where toks: "ws_tokens h = [s, t]"
    and pr: "pr = \<lparr>scheme = toLowerCase s, token = t\<rparr>"
    by (auto simp: parse_tokens split: list.splits)
  from toks have "s \<in> set (ws_tokens h)" "t \<in> set (ws_tokens h)" by simp_all
  then have "s \<noteq> []" "t \<noteq> []" using ws_tokens_shape by blast+
  then show "scheme pr \<noteq> []" "token pr \<noteq> []" by (simp_all add: pr toLowerCase_def)
  show "\<forall>c \<in> set (scheme pr). \<not> isUpperCase c"
    by (auto simp: pr toLowerCase_def lowerUnit_not_upper)
qed

lemma parse_spec:
  "parseAuthorizationHeader h = None \<longleftrightarrow> spec_parse h = None"
  "parseAuthorizationHeader h = Some pr \<Longrightarrow> spec_parse h = Some (scheme pr, token pr)"
  by (auto simp: parse_tokens spec_parse_def split: list.splits)

lemma isValidToken_spec: "isValidToken cfg t = spec_validate (bearerTokens cfg) t"
  by (simp add: isValidToken_def isValidToken_loop_iff spec_validate_def list_ex_iff)

lemma validateBearerAuth_results:
  "validateBearerAuth cfg hdr p \<in>
     {\<lparr>success = True, exempted = Some True, error = None, message = None\<rparr>,
      \<lparr>success = False, exempted = None, error = Some Missing_authorization,
       message = Some ''Authorization header is required. Format: Authorization: Bearer <token>''\<rparr>,
      \<lparr>success = False, exempted = None, error = Some Malformed_header,
       message = Some ''Malformed Authorization header. Format: Authorization: Bearer <token>''\<rparr>,
      \<lparr>success = False, exempted = None, error = Some Invalid_scheme,
       message = Some ''Authorization header must use Bearer scheme. Format: Authorization: Bearer <token>''\<rparr>,
      \<lparr>success = False, exempted = None, error = Some Invalid_token,
       message = Some ''Invalid Bearer token. Please check your authentication credentials.''\<rparr>,
      \<lparr>success = True, exempted = None, error = None, message = None\<rparr>}"
proof (cases "isExemptedPath (exemptedPaths cfg) p")
  case True
  then show ?thesis by (simp add: validateBearerAuth_def)
next
  case ne: False
  show ?thesis
  proof (cases hdr)
    case None
    with ne show ?thesis by (simp add: validateBearerAuth_def)
  next
    case (Some h)
    note hdr = Some
    show ?thesis
    proof (cases "h = [] \<or> trim h = []")
      case True
      with ne hdr show ?thesis by (simp add: validateBearerAuth_def)
    next
      case nb: False
      show ?thesis
      proof (cases "parseAuthorizationHeader h")
        case None
        with ne hdr nb show ?thesis by (simp add: validateBearerAuth_def)
      next
        case (Some pr)
        then have "token pr \<noteq> []" by (rule parse_nonempty)
        with Some ne hdr nb show ?thesis by (simp add: validateBearerAuth_def)
      qed
    qed
  qed
qed



section \<open>Properties of the decision function\<close>

text \<open>
  Claim C6. For every request whose path is exempted, \<open>validateBearerAuth\<close> returns the
  exempted success whatever the Authorization header is, present or not.
\<close>

theorem validateBearerAuth_exempted:
  "isExemptedPath (exemptedPaths cfg) p \<Longrightarrow>
   validateBearerAuth cfg h p = \<lparr>success = True, exempted = Some True, error = None, message = None\<rparr>"
  by (simp add: validateBearerAuth_def)

theorem validateBearerAuth_exempted_witness:
  "isExemptedPath (exemptedPaths \<lparr>exemptedPaths = [lit ''/api/health''], bearerTokens = [],
                                   logSecurityEvents = False\<rparr>) (lit ''/api/health/detailed'') \<and>
   validateBearerAuth \<lparr>exemptedPaths = [lit ''/api/health''], bearerTokens = [],
                       logSecurityEvents = False\<rparr> None (lit ''/api/health/detailed'')
     = \<lparr>success = True, exempted = Some True, error = None, message = None\<rparr> \<and>
   validateBearerAuth \<lparr>exemptedPaths = [lit ''/api/health''], bearerTokens = [],
                       logSecurityEvents = False\<rparr> (Some (lit ''Basic abc'')) (lit ''/api/health/detailed'')
     = \<lparr>success = True, exempted = Some True, error = None, message = None\<rparr>"
proof -
  let ?c = "\<lparr>exemptedPaths = [lit ''/api/health''], bearerTokens = [], logSecurityEvents = False\<rparr>"
  have e: "isExemptedPath (exemptedPaths ?c) (lit ''/api/health/detailed'')"
    by (simp add: isExemptedPath_def startsWith_def lit_def)
  show ?thesis
    using e validateBearerAuth_exempted [OF e, of None]
      validateBearerAuth_exempted [OF e, of "Some (lit ''Basic abc'')"]
    by simp
qed

text \<open>
  Claim C1. For every path that is not exempted and every Authorization header value,
  \<open>validateBearerAuth\<close> decides as the steps of the specification do, taken in their order
  with the first match winning: a header that is absent or trims to the empty string is
  \<open>Missing authorization\<close>; otherwise a header that does not split into exactly two
  tokens is \<open>Malformed header\<close>; otherwise a lower-cased scheme other than \<open>bearer\<close> is
  \<open>Invalid scheme\<close>; otherwise an empty token is \<open>Malformed header\<close>; otherwise a token
  matching no configured token is \<open>Invalid token\<close>; otherwise the result is success.
\<close>

theorem validateBearerAuth_refines_steps:
  "\<not> isExemptedPath (exemptedPaths cfg) p \<Longrightarrow>
   (success (validateBearerAuth cfg hdr p), exempted (validateBearerAuth cfg hdr p),
    map_option error_string (error (validateBearerAuth cfg hdr p)))
     = outcome (spec_decision cfg hdr p)"
proof -
  assume ne: "\<not> isExemptedPath (exemptedPaths cfg) p"
  show ?thesis
  proof (cases hdr)
    case None
    with ne show ?thesis by (simp add: validateBearerAuth_def spec_decision_def)
  next
    case (Some h)
    show ?thesis
    proof (cases "trim h = []")
      case True
      with ne Some show ?thesis by (simp add: validateBearerAuth_def spec_decision_def)
    next
      case False
      then have hne: "h \<noteq> []" by (auto simp: trim_def)
      show ?thesis
      proof (cases "parseAuthorizationHeader h")
        case None
        then have "spec_parse h = None" by (simp add: parse_spec)
        with None ne Some False hne show ?thesis
          by (simp add: validateBearerAuth_def spec_decision_def)
      next
        case (Some pr)
        then have "spec_parse h = Some (scheme pr, token pr)" by (rule parse_spec)
        with Some ne \<open>hdr = Some h\<close> False hne show ?thesis
          by (simp add: validateBearerAuth_def spec_decision_def isValidToken_spec)
      qed
    qed
  qed
qed

theorem validateBearerAuth_refines_steps_witness:
  "\<not> isExemptedPath (exemptedPaths \<lparr>exemptedPaths = [], bearerTokens = [lit ''secret1'', lit ''secret2''], logSecurityEvents = False\<rparr>)
       (lit ''/api/orders'') \<and>
   (success (validateBearerAuth \<lparr>exemptedPaths = [], bearerTokens = [lit ''secret1'', lit ''secret2''], logSecurityEvents = False\<rparr>
        None (lit ''/api/orders'')),
    exempted (validateBearerAuth \<lparr>exemptedPaths = [], bearerTokens = [lit ''secret1'', lit ''secret2''], logSecurityEvents = False\<rparr>
        None (lit ''/api/orders'')),
    map_option error_string (error (validateBearerAuth \<lparr>exemptedPaths = [], bearerTokens = [lit ''secret1'', lit ''secret2''], logSecurityEvents = False\<rparr>
        None (lit ''/api/orders''))))
     = (False, None, Some ''Missing authorization'') \<and>
   (success (validateBearerAuth \<lparr>exemptedPaths = [], bearerTokens = [lit ''secret1'', lit ''secret2''], logSecurityEvents = False\<rparr>
        (Some (lit ''Basic abc'')) (lit ''/api/orders'')),
    exempted (validateBearerAuth \<lparr>exemptedPaths = [], bearerTokens = [lit ''secret1'', lit ''secret2''], logSecurityEvents = False\<rparr>
        (Some (lit ''Basic abc'')) (lit ''/api/orders'')),
    map_option error_string (error (validateBearerAuth \<lparr>exemptedPaths = [], bearerTokens = [lit ''secret1'', lit ''secret2''], logSecurityEvents = False\<rparr>
        (Some (lit ''Basic abc'')) (lit ''/api/orders''))))
     = (False, None, Some ''Invalid scheme'') \<and>
   (success (validateBearerAuth \<lparr>exemptedPaths = [], bearerTokens = [lit ''secret1'', lit ''secret2''], logSecurityEvents = False\<rparr>
        (Some (lit ''Bearer a b'')) (lit ''/api/orders'')),
    exempted (validateBearerAuth \<lparr>exemptedPaths = [], bearerTokens = [lit ''secret1'', lit ''secret2''], logSecurityEvents = False\<rparr>
        (Some (lit ''Bearer a b'')) (lit ''/api/orders'')),
    map_option error_string (error (validateBearerAuth \<lparr>exemptedPaths = [], bearerTokens = [lit ''secret1'', lit ''secret2''], logSecurityEvents = False\<rparr>
        (Some (lit ''Bearer a b'')) (lit ''/api/orders''))))
     = (False, None, Some ''Malformed header'') \<and>
   (success (validateBearerAuth \<lparr>exemptedPaths = [], bearerTokens = [lit ''secret1'', lit ''secret2''], logSecurityEvents = False\<rparr>
        (Some (lit ''Bearer wrongtoken'')) (lit ''/api/orders'')),
    exempted (validateBearerAuth \<lparr>exemptedPaths = [], bearerTokens = [lit ''secret1'', lit ''secret2''], logSecurityEvents = False\<rparr>
        (Some (lit ''Bearer wrongtoken'')) (lit ''/api/orders'')),
    map_option error_string (error (validateBearerAuth \<lparr>exemptedPaths = [], bearerTokens = [lit ''secret1'', lit ''secret2''], logSecurityEvents = False\<rparr>
        (Some (lit ''Bearer wrongtoken'')) (lit ''/api/orders''))))
     = (False, None, Some ''Invalid token'') \<and>
   (success (validateBearerAuth \<lparr>exemptedPaths = [], bearerTokens = [lit ''secret1'', lit ''secret2''], logSecurityEvents = False\<rparr>
        (Some (lit ''bearer   secret2'')) (lit ''/api/orders'')),
    exempted (validateBearerAuth \<lparr>exemptedPaths = [], bearerTokens = [lit ''secret1'', lit ''secret2''], logSecurityEvents = False\<rparr>
        (Some (lit ''bearer   secret2'')) (lit ''/api/orders'')),
    map_option error_string (error (validateBearerAuth \<lparr>exemptedPaths = [], bearerTokens = [lit ''secret1'', lit ''secret2''], logSecurityEvents = False\<rparr>
        (Some (lit ''bearer   secret2'')) (lit ''/api/orders''))))
     = (True, None, None)"
proof -
  let ?c = "\<lparr>exemptedPaths = [], bearerTokens = [lit ''secret1'', lit ''secret2''],
             logSecurityEvents = False\<rparr>"
  let ?p = "lit ''/api/orders''"
  have e: "\<not> isExemptedPath (exemptedPaths ?c) ?p"
    by (simp add: isExemptedPath_def)
  have d: "spec_decision ?c None ?p = Failure Missing_authorization"
    "spec_decision ?c (Some (lit ''Basic abc'')) ?p = Failure Invalid_scheme"
    "spec_decision ?c (Some (lit ''Bearer a b'')) ?p = Failure Malformed_header"
    "spec_decision ?c (Some (lit ''Bearer wrongtoken'')) ?p = Failure Invalid_token"
    "spec_decision ?c (Some (lit ''bearer   secret2'')) ?p = Success"
    by code_simp+
  show ?thesis
    using e
      validateBearerAuth_refines_steps [OF e, of None]
      validateBearerAuth_refines_steps [OF e, of "Some (lit ''Basic abc'')"]
      validateBearerAuth_refines_steps [OF e, of "Some (lit ''Bearer a b'')"]
      validateBearerAuth_refines_steps [OF e, of "Some (lit ''Bearer wrongtoken'')"]
      validateBearerAuth_refines_steps [OF e, of "Some (lit ''bearer   secret2'')"]
    by (simp add: d)
qed

section \<open>Properties of the middleware\<close>

lemma error_string_codes:
  "error_string e \<in> {''Missing authorization'', ''Invalid scheme'', ''Invalid token'',
                      ''Malformed header''}"
  by (cases e) simp_all

lemma validateBearerAuth_failure_fields:
  "\<not> success (validateBearerAuth cfg hdr p) \<Longrightarrow>
   \<exists>e m. error (validateBearerAuth cfg hdr p) = Some e \<and>
         message (validateBearerAuth cfg hdr p) = Some m"
  using validateBearerAuth_results [of cfg hdr p] by auto

text \<open>
  Claim C3. For every request: when the decision is a failure the middleware sets the
  status 401 and a JSON body holding \<open>success: false\<close>, the error code of the failure (one
  of the four code strings), its message and a timestamp, and \<open>next\<close> is not called; when
  the decision is a success, exempted or not, the middleware calls \<open>next\<close> and sets no body.
\<close>

theorem bearerAuth_rejects_or_continues:
  "(\<not> success (validateBearerAuth cfg (header_Authorization req) (path req)) \<longrightarrow>
      statusCode (bearerAuth cfg clock req w) = 401 \<and>
      (\<exists>e m. error (validateBearerAuth cfg (header_Authorization req) (path req)) = Some e \<and>
             message (validateBearerAuth cfg (header_Authorization req) (path req)) = Some m \<and>
             error_string e \<in> {''Missing authorization'', ''Invalid scheme'', ''Invalid token'',
                                ''Malformed header''} \<and>
             body (bearerAuth cfg clock req w) =
               Some \<lparr>json_success = False, json_error = Some (error_string e),
                     json_message = Some m,
                     json_timestamp =
                       clock (if logSecurityEvents cfg then Suc (dates w) else dates w)\<rparr>) \<and>
      nextCalls (bearerAuth cfg clock req w) = nextCalls w) \<and>
   (success (validateBearerAuth cfg (header_Authorization req) (path req)) \<longrightarrow>
      nextCalls (bearerAuth cfg clock req w) = Suc (nextCalls w) \<and>
      body (bearerAuth cfg clock req w) = body w \<and>
      statusCode (bearerAuth cfg clock req w) = statusCode w)"
proof (cases "success (validateBearerAuth cfg (header_Authorization req) (path req))")
  case True
  then show ?thesis by (simp add: bearerAuth_def)
next
  case False
  from validateBearerAuth_failure_fields [OF False] obtain e m
    where em: "error (validateBearerAuth cfg (header_Authorization req) (path req)) = Some e"
      "message (validateBearerAuth cfg (header_Authorization req) (path req)) = Some m"
    by blast
  have "statusCode (bearerAuth cfg clock req w) = 401"
    "nextCalls (bearerAuth cfg clock req w) = nextCalls w"
    "body (bearerAuth cfg clock req w) =
       Some \<lparr>json_success = False, json_error = Some (error_string e), json_message = Some m,
             json_timestamp = clock (if logSecurityEvents cfg then Suc (dates w) else dates w)\<rparr>"
    using False em by (simp_all add: bearerAuth_def logAuthenticationFailure_def Let_def)
  with False em error_string_codes [of e] show ?thesis by simp
qed

theorem bearerAuth_rejects_or_continues_witness:
  "statusCode (bearerAuth \<lparr>exemptedPaths = [], bearerTokens = [lit ''secret1''], logSecurityEvents = True\<rparr>
     (\<lambda>k. lit ''t'')
     \<lparr>header_Authorization = None, header_User_Agent = None, path = lit ''/api/orders'',
      ip = None, remoteAddress = None\<rparr>
     \<lparr>dates = 0, console = [], statusCode = 200, body = None, nextCalls = 0\<rparr>) = 401 \<and>
   nextCalls (bearerAuth \<lparr>exemptedPaths = [], bearerTokens = [lit ''secret1''], logSecurityEvents = True\<rparr>
     (\<lambda>k. lit ''t'')
     \<lparr>header_Authorization = None, header_User_Agent = None, path = lit ''/api/orders'',
      ip = None, remoteAddress = None\<rparr>
     \<lparr>dates = 0, console = [], statusCode = 200, body = None, nextCalls = 0\<rparr>) = 0 \<and>
   nextCalls (bearerAuth \<lparr>exemptedPaths = [], bearerTokens = [lit ''secret1''], logSecurityEvents = True\<rparr>
     (\<lambda>k. lit ''t'')
     \<lparr>header_Authorization = Some (lit ''Bearer secret1''), header_User_Agent = None,
      path = lit ''/api/orders'', ip = None, remoteAddress = None\<rparr>
     \<lparr>dates = 0, console = [], statusCode = 200, body = None, nextCalls = 0\<rparr>) = 1 \<and>
   body (bearerAuth \<lparr>exemptedPaths = [], bearerTokens = [lit ''secret1''], logSecurityEvents = True\<rparr>
     (\<lambda>k. lit ''t'')
     \<lparr>header_Authorization = Some (lit ''Bearer secret1''), header_User_Agent = None,
      path = lit ''/api/orders'', ip = None, remoteAddress = None\<rparr>
     \<lparr>dates = 0, console = [], statusCode = 200, body = None, nextCalls = 0\<rparr>) = None"
proof -
  let ?c = "\<lparr>exemptedPaths = [], bearerTokens = [lit ''secret1''], logSecurityEvents = True\<rparr>"
  let ?w = "\<lparr>dates = 0, console = [], statusCode = 200, body = None, nextCalls = 0\<rparr>"
  let ?r1 = "\<lparr>header_Authorization = None, header_User_Agent = None, path = lit ''/api/orders'',
              ip = None, remoteAddress = None\<rparr>"
  let ?r2 = "\<lparr>header_Authorization = Some (lit ''Bearer secret1''), header_User_Agent = None,
              path = lit ''/api/orders'', ip = None, remoteAddress = None\<rparr>"
  have f: "\<not> success (validateBearerAuth ?c (header_Authorization ?r1) (path ?r1))"
    by code_simp
  have s: "success (validateBearerAuth ?c (header_Authorization ?r2) (path ?r2))"
    by code_simp
  show ?thesis
    using f s bearerAuth_rejects_or_continues [of ?c ?r1 "\<lambda>k. lit ''t''" ?w]
      bearerAuth_rejects_or_continues [of ?c ?r2 "\<lambda>k. lit ''t''" ?w]
    by simp
qed

end
